theory Spec2Isabelle
  imports Main "HOL-Library.Sublist" "HOL-Library.Product_Lexorder"
begin

section \<open>The configuration string reader of ibnet::core\<close>

text \<open>
  The source file is \<^verbatim>\<open>ibnet/core/IbNodeConfStringReader.cpp\<close>. It defines the
  constructor, the destructor and \<^verbatim>\<open>Read\<close> of the class
  \<^verbatim>\<open>IbNodeConfStringReader\<close>. The class stores one member, \<^verbatim>\<open>m_str\<close>.
  \<^verbatim>\<open>Read\<close> uses two collaborators that the file only includes:
  \<^verbatim>\<open>sys::StringUtils::Split\<close> and the class \<^verbatim>\<open>IbNodeConf\<close> with its default
  constructor and \<^verbatim>\<open>AddEntry\<close>.
\<close>

subsection \<open>The reader object\<close>

record IbNodeConfStringReader =
  m_str :: string

text \<open>
  \<^verbatim>\<open>IbNodeConfStringReader(const std::string& str) : m_str(str) {}\<close>: the
  constructor copies its argument and checks nothing.
\<close>

definition IbNodeConfStringReader_new :: "string \<Rightarrow> IbNodeConfStringReader" where
  "IbNodeConfStringReader_new str = \<lparr>m_str = str\<rparr>"

subsection \<open>Read\<close>

text \<open>
  The range-based loop \<^verbatim>\<open>for (auto& it : tokens) { conf.AddEntry(it); }\<close>. The
  collaborator \<^verbatim>\<open>AddEntry\<close> is a parameter: it maps the configuration built so far
  and one token to the updated configuration (\<open>Inr\<close>), or to the failure it signals
  (\<open>Inl\<close>). The source has no handler around the call, so a failure leaves the loop and
  the function at once.
\<close>

fun Read_loop :: "('c \<Rightarrow> string \<Rightarrow> 'e + 'c) \<Rightarrow> 'c \<Rightarrow> string list \<Rightarrow> 'e + 'c" where
  "Read_loop add_entry conf [] = Inr conf"
| "Read_loop add_entry conf (it # tokens) =
     (case add_entry conf it of
        Inl e \<Rightarrow> Inl e
      | Inr conf' \<Rightarrow> Read_loop add_entry conf' tokens)"

text \<open>
  \<^verbatim>\<open>IbNodeConf IbNodeConfStringReader::Read(void)\<close>. The parameters are the
  collaborators: \<open>split\<close> is \<^verbatim>\<open>sys::StringUtils::Split\<close> called with one argument,
  \<open>conf_new\<close> is the default-constructed \<^verbatim>\<open>IbNodeConf\<close>, \<open>add_entry\<close> is
  \<^verbatim>\<open>IbNodeConf::AddEntry\<close>. \<^verbatim>\<open>Read\<close> is a non-const member function, so the model
  returns the reader object after the call beside the result.
\<close>

definition Read ::
  "(string \<Rightarrow> string list) \<Rightarrow> 'c \<Rightarrow> ('c \<Rightarrow> string \<Rightarrow> 'e + 'c) \<Rightarrow>
     IbNodeConfStringReader \<Rightarrow> IbNodeConfStringReader \<times> ('e + 'c)" where
  "Read split conf_new add_entry this =
     (let conf = conf_new;
          tokens = split (m_str this)
      in (this, Read_loop add_entry conf tokens))"

subsection \<open>The tokenizer\<close>

text \<open>
  Modelled from the spec: \<^verbatim>\<open>sys::StringUtils::Split\<close> (\<^verbatim>\<open>ibnet/sys/StringUtils.h\<close>),
  which the source includes and calls but does not define. The whitespace characters
  are space, horizontal tab, line feed, vertical tab, form feed and carriage return.
\<close>

definition is_space :: "char \<Rightarrow> bool" where
  "is_space c =
     (c = CHR '' '' \<or> c = CHR 0x09 \<or> c = CHR 0x0A \<or> c = CHR 0x0B \<or> c = CHR 0x0C
      \<or> c = CHR 0x0D)"

text \<open>
  Modelled from the spec: \<^verbatim>\<open>Split(text)\<close> of the tokenizer, absent from the source.
  It skips a run of whitespace, takes the characters up to the next whitespace
  character as one token, and goes on behind that token.
\<close>

function Split :: "string \<Rightarrow> string list" where
  "Split text =
     (case dropWhile is_space text of
        [] \<Rightarrow> []
      | c # cs \<Rightarrow>
          (c # takeWhile (\<lambda>x. \<not> is_space x) cs) # Split (dropWhile (\<lambda>x. \<not> is_space x) cs))"
  by pat_completeness auto
termination
proof (relation "measure length", simp, clarsimp)
  fix s :: string and c cs
  assume eq: "dropWhile is_space s = c # cs"
  have "length (dropWhile (\<lambda>x. \<not> is_space x) cs) \<le> length cs"
    by (rule length_dropWhile_le)
  also have "length cs < length (dropWhile is_space s)"
    by (simp add: eq)
  also have "\<dots> \<le> length s"
    by (rule length_dropWhile_le)
  finally show "length (dropWhile (\<lambda>x. \<not> is_space x) cs) < length s" .
qed

declare Split.simps [simp del]

subsection \<open>The node configuration\<close>

text \<open>
  Modelled from the spec: the class \<^verbatim>\<open>IbNodeConf\<close> (\<^verbatim>\<open>IbNodeConf.h\<close>), absent from
  the source: an ordered collection of node descriptor entries, built incrementally.
  An entry is the raw descriptor string.
\<close>

record IbNodeConf =
  m_entries :: "string list"

text \<open>Modelled from the spec: the default constructor of \<^verbatim>\<open>IbNodeConf\<close>, no entries.\<close>

definition IbNodeConf_new :: IbNodeConf where
  "IbNodeConf_new = \<lparr>m_entries = []\<rparr>"

text \<open>
  Modelled from the spec: \<^verbatim>\<open>IbNodeConf::AddEntry(descriptor) -> void | Error\<close>, absent
  from the source. The parameter \<open>reject\<close> tells which descriptors the operation
  refuses and with which failure; an accepted descriptor is appended behind the entries
  present, duplicates included.
\<close>

definition AddEntry :: "(string \<Rightarrow> 'e option) \<Rightarrow> IbNodeConf \<Rightarrow> string \<Rightarrow> 'e + IbNodeConf" where
  "AddEntry reject conf descriptor =
     (case reject descriptor of
        Some e \<Rightarrow> Inl e
      | None \<Rightarrow> Inr (conf\<lparr>m_entries := m_entries conf @ [descriptor]\<rparr>))"

subsection \<open>Recording the calls of the insertion operation\<close>

text \<open>
  An insertion operation that behaves as \<open>add_entry\<close> and notes every descriptor it is
  called with, on success and on failure alike.
\<close>

definition logged ::
  "('c \<Rightarrow> string \<Rightarrow> 'e + 'c) \<Rightarrow> 'c \<times> string list \<Rightarrow> string \<Rightarrow>
     ('e \<times> string list) + ('c \<times> string list)" where
  "logged add_entry = (\<lambda>(conf, calls) it.
     case add_entry conf it of
       Inl e \<Rightarrow> Inl (e, calls @ [it])
     | Inr conf' \<Rightarrow> Inr (conf', calls @ [it]))"

definition calls_of :: "('e \<times> string list) + ('c \<times> string list) \<Rightarrow> string list" where
  "calls_of r = (case r of Inl (e, calls) \<Rightarrow> calls | Inr (conf, calls) \<Rightarrow> calls)"

subsection \<open>Tokens of a string, by position\<close>

text \<open>
  This follows the words of the specification, not the code: a token is a maximal
  non-empty substring bounded by whitespace. It is what the tokenizer is compared with.
  The characters at the positions \<open>i, \<dots>, j - 1\<close> of \<open>s\<close> form a token when the range
  is not empty, holds no whitespace, and cannot be extended: it begins at the start of
  \<open>s\<close> or behind a whitespace character, and it ends at the end of \<open>s\<close> or before a
  whitespace character.
\<close>

definition token_at :: "string \<Rightarrow> nat \<Rightarrow> nat \<Rightarrow> bool" where
  "token_at s i j =
     (i < j \<and> j \<le> length s
      \<and> (\<forall>k \<in> {i..<j}. \<not> is_space (s ! k))
      \<and> (i = 0 \<or> is_space (s ! (i - 1)))
      \<and> (j = length s \<or> is_space (s ! j)))"

definition substring :: "string \<Rightarrow> nat \<times> nat \<Rightarrow> string" where
  "substring s = (\<lambda>(i, j). take (j - i) (drop i s))"

text \<open>All token ranges of \<open>s\<close>, from left to right.\<close>

definition token_spans :: "string \<Rightarrow> (nat \<times> nat) list" where
  "token_spans s =
     filter (\<lambda>(i, j). token_at s i j) (List.product [0..<length s] [0..<Suc (length s)])"

subsection \<open>Read on a memory of objects\<close>

text \<open>
  A second, operational model of the same function, for the properties that are about
  objects and calls rather than about the returned value. The memory holds the reader
  objects and the \<^verbatim>\<open>IbNodeConf\<close> objects that exist, each addressed by its index; the
  local \<^verbatim>\<open>conf\<close> of \<^verbatim>\<open>Read\<close> is the object on top of the configuration objects
  and is destroyed when the function is left. Every call of a collaborator is noted in
  \<open>call_log\<close> at the place of the call. The collaborators are the same parameters as
  before: \<^verbatim>\<open>Split\<close> reads its argument only, \<^verbatim>\<open>AddEntry\<close> reads and writes the object
  it is called on only.
\<close>

datatype event = Call_Split string | Call_AddEntry string

record 'c memory =
  readers :: "IbNodeConfStringReader list"
  confs :: "'c list"
  call_log :: "event list"

text \<open>
  \<^verbatim>\<open>for (auto& it : tokens) { conf.AddEntry(it); }\<close> with its iterator: \<open>i\<close> is the
  position of the iterator in \<open>tokens\<close>, \<open>a\<close> the address of \<^verbatim>\<open>conf\<close>. The loop is
  left when the iterator reaches the end (\<open>None\<close>: no failure) or when \<^verbatim>\<open>AddEntry\<close>
  fails (\<open>Some e\<close>). A run that never leaves the loop has the value \<open>None\<close> of the
  outer option.
\<close>

partial_function (option) Read_for ::
  "('c \<Rightarrow> string \<Rightarrow> 'e + 'c) \<Rightarrow> nat \<Rightarrow> string list \<Rightarrow> nat \<Rightarrow> 'c memory \<Rightarrow>
     ('c memory \<times> 'e option) option" where
  "Read_for add_entry a tokens i \<sigma> =
     (if i < length tokens then
        (case add_entry (confs \<sigma> ! a) (tokens ! i) of
           Inl e \<Rightarrow> Some (\<sigma>\<lparr>call_log := call_log \<sigma> @ [Call_AddEntry (tokens ! i)]\<rparr>, Some e)
         | Inr conf' \<Rightarrow>
             Read_for add_entry a tokens (Suc i)
               (\<sigma>\<lparr>confs := (confs \<sigma>)[a := conf'],
                  call_log := call_log \<sigma> @ [Call_AddEntry (tokens ! i)]\<rparr>))
      else Some (\<sigma>, None))"

declare Read_for.simps [code]

text \<open>
  \<^verbatim>\<open>Read\<close> called on the reader object at address \<open>p\<close>. \<^verbatim>\<open>IbNodeConf conf;\<close>
  creates the local object; \<^verbatim>\<open>Split(m_str)\<close> is called once, on the member of the
  reader; the loop follows; \<^verbatim>\<open>return conf;\<close> hands the value of the local object to the
  caller. Leaving the function, by return or by a failure passing through, destroys
  the local object. A call on an address that holds no reader has no defined result.
\<close>

definition Read_exec ::
  "(string \<Rightarrow> string list) \<Rightarrow> 'c \<Rightarrow> ('c \<Rightarrow> string \<Rightarrow> 'e + 'c) \<Rightarrow> nat \<Rightarrow> 'c memory \<Rightarrow>
     ('c memory \<times> ('e + 'c)) option" where
  "Read_exec split conf_new add_entry p \<sigma> =
     (if p < length (readers \<sigma>) then
        (let a = length (confs \<sigma>);
             \<sigma>1 = \<sigma>\<lparr>confs := confs \<sigma> @ [conf_new]\<rparr>;
             tokens = split (m_str (readers \<sigma>1 ! p));
             \<sigma>2 = \<sigma>1\<lparr>call_log := call_log \<sigma>1 @ [Call_Split (m_str (readers \<sigma>1 ! p))]\<rparr>
         in case Read_for add_entry a tokens 0 \<sigma>2 of
              None \<Rightarrow> None
            | Some (\<sigma>3, Some e) \<Rightarrow> Some (\<sigma>3\<lparr>confs := take a (confs \<sigma>3)\<rparr>, Inl e)
            | Some (\<sigma>3, None) \<Rightarrow> Some (\<sigma>3\<lparr>confs := take a (confs \<sigma>3)\<rparr>, Inr (confs \<sigma>3 ! a)))
      else None)"

section \<open>Lemmas\<close>

subsection \<open>The tokenizer and token positions\<close>

lemma Split_Nil: "Split [] = []"
  by (simp add: Split.simps)

lemma Split_spaces: "\<forall>c \<in> set ws. is_space c \<Longrightarrow> Split (ws @ s) = Split s"
  by (subst Split.simps, subst (2) Split.simps) (simp add: dropWhile_append2)

lemma Split_all_spaces: "\<forall>c \<in> set ws. is_space c \<Longrightarrow> Split ws = []"
  using Split_spaces [of ws "[]"] by (simp add: Split_Nil)

lemma Split_token:
  assumes "t \<noteq> []" "\<forall>c \<in> set t. \<not> is_space c" "rest = [] \<or> is_space (hd rest)"
  shows "Split (t @ rest) = t # Split rest"
proof -
  obtain c cs where t: "t = c # cs"
    using assms(1) by (cases t) auto
  have c: "\<not> is_space c" and cs: "\<forall>x \<in> set cs. \<not> is_space x"
    using assms(2) by (simp_all add: t)
  have tw: "takeWhile (\<lambda>x. \<not> is_space x) (cs @ rest) = cs"
    using cs assms(3) by (cases rest) (simp_all add: takeWhile_append2)
  have dw: "dropWhile (\<lambda>x. \<not> is_space x) (cs @ rest) = rest"
    using cs assms(3) by (cases rest) (simp_all add: dropWhile_append2)
  show ?thesis
    by (subst Split.simps) (simp add: t c tw dw)
qed

lemma token_at_iff:
  "token_at s i j \<longleftrightarrow>
     i < j \<and> j \<le> length s \<and> (\<forall>k. i \<le> k \<longrightarrow> k < j \<longrightarrow> \<not> is_space (s ! k))
     \<and> (i = 0 \<or> is_space (s ! (i - 1))) \<and> (j = length s \<or> is_space (s ! j))"
  by (auto simp: token_at_def)

lemma token_at_first: "token_at s i j \<Longrightarrow> \<not> is_space (s ! i)"
  by (simp add: token_at_iff)

lemma token_at_mid: "token_at s i j \<Longrightarrow> i \<le> k \<Longrightarrow> k < j \<Longrightarrow> \<not> is_space (s ! k)"
  by (simp add: token_at_iff)

lemma token_at_space_Cons:
  assumes "is_space c"
  shows "token_at (c # s) i j \<longleftrightarrow> (\<exists>i' j'. i = Suc i' \<and> j = Suc j' \<and> token_at s i' j')"
proof
  assume a: "token_at (c # s) i j"
  have "i \<noteq> 0"
    using token_at_first [OF a] assms by (cases i) auto
  then obtain i' where i: "i = Suc i'" by (cases i) auto
  from a have "j \<noteq> 0" by (auto simp: token_at_iff)
  then obtain j' where j: "j = Suc j'" by (cases j) auto
  have nonsp: "\<not> is_space (s ! k)" if "i' \<le> k" "k < j'" for k
  proof -
    have "\<not> is_space ((c # s) ! Suc k)"
      using token_at_mid [OF a, of "Suc k"] that unfolding i j by simp
    then show ?thesis by simp
  qed
  have left: "i' = 0 \<or> is_space (s ! (i' - 1))"
    using a unfolding token_at_iff i by (cases i') auto
  have right: "j' = length s \<or> is_space (s ! j')"
    using a unfolding token_at_iff j by auto
  have "token_at s i' j'"
    unfolding token_at_iff using a nonsp left right by (auto simp: token_at_iff i j)
  then show "\<exists>i' j'. i = Suc i' \<and> j = Suc j' \<and> token_at s i' j'"
    using i j by blast
next
  assume "\<exists>i' j'. i = Suc i' \<and> j = Suc j' \<and> token_at s i' j'"
  then obtain i' j' where i: "i = Suc i'" and j: "j = Suc j'" and a: "token_at s i' j'"
    by blast
  have nonsp: "\<not> is_space ((c # s) ! k)" if lo: "Suc i' \<le> k" and hi: "k < Suc j'" for k
  proof -
    obtain k' where k: "k = Suc k'" using lo by (cases k) auto
    show ?thesis using token_at_mid [OF a, of k'] lo hi unfolding k by simp
  qed
  have left: "is_space ((c # s) ! i')"
    using a assms unfolding token_at_iff by (cases i') auto
  show "token_at (c # s) i j"
    unfolding token_at_iff i j using a nonsp left by (auto simp: token_at_iff)
qed

lemma token_at_spaces:
  "\<forall>c \<in> set ws. is_space c \<Longrightarrow>
     token_at (ws @ s) i j \<longleftrightarrow> (\<exists>i' j'. i = length ws + i' \<and> j = length ws + j' \<and> token_at s i' j')"
proof (induction ws arbitrary: i j)
  case Nil
  then show ?case by simp
next
  case (Cons c ws)
  have "token_at ((c # ws) @ s) i j \<longleftrightarrow> (\<exists>i' j'. i = Suc i' \<and> j = Suc j' \<and> token_at (ws @ s) i' j')"
    using Cons.prems token_at_space_Cons [of c "ws @ s" i j] by simp
  also have "\<dots> \<longleftrightarrow> (\<exists>i' j'. i = Suc i' \<and> j = Suc j' \<and>
      (\<exists>i'' j''. i' = length ws + i'' \<and> j' = length ws + j'' \<and> token_at s i'' j''))"
    using Cons.IH Cons.prems by simp
  also have "\<dots> \<longleftrightarrow> (\<exists>i' j'. i = length (c # ws) + i' \<and> j = length (c # ws) + j' \<and> token_at s i' j')"
    by auto
  finally show ?case .
qed

lemma no_token_in_spaces: "\<forall>c \<in> set s. is_space c \<Longrightarrow> \<not> token_at s i j"
proof
  assume sp: "\<forall>c \<in> set s. is_space c" and a: "token_at s i j"
  have "i < length s" using a by (simp add: token_at_iff)
  then have "s ! i \<in> set s" by simp
  then show False using sp token_at_first [OF a] by blast
qed

lemma token_at_token_prefix:
  assumes t: "t \<noteq> []" and ns: "\<forall>c \<in> set t. \<not> is_space c"
    and r: "rest = [] \<or> is_space (hd rest)"
  shows "token_at (t @ rest) i j \<longleftrightarrow>
     (i = 0 \<and> j = length t) \<or>
     (\<exists>i' j'. i = length t + i' \<and> j = length t + j' \<and> token_at rest i' j')"
proof
  assume a: "token_at (t @ rest) i j"
  have tn: "\<not> is_space ((t @ rest) ! k)" if "k < length t" for k
    using ns that by (simp add: nth_append)
  have rn: "is_space ((t @ rest) ! length t)" if "rest \<noteq> []"
    using r that by (simp add: nth_append hd_conv_nth)
  show "(i = 0 \<and> j = length t) \<or>
     (\<exists>i' j'. i = length t + i' \<and> j = length t + j' \<and> token_at rest i' j')"
  proof (cases "i < length t")
    case True
    have i0: "i = 0"
    proof (rule ccontr)
      assume "i \<noteq> 0"
      then have "is_space ((t @ rest) ! (i - 1))" using a by (simp add: token_at_iff)
      moreover have "i - 1 < length t" using True by simp
      ultimately show False using tn by blast
    qed
    have j1: "\<not> j < length t"
    proof
      assume lt: "j < length t"
      then have "j \<noteq> length (t @ rest)" by simp
      then have "is_space ((t @ rest) ! j)" using a by (simp add: token_at_iff)
      then show False using tn lt by blast
    qed
    have j2: "\<not> length t < j"
    proof
      assume gt: "length t < j"
      have "j \<le> length (t @ rest)" using a by (simp add: token_at_iff)
      then have "rest \<noteq> []" using gt by auto
      then have "is_space ((t @ rest) ! length t)" by (rule rn)
      moreover have "\<not> is_space ((t @ rest) ! length t)"
        using a gt True unfolding token_at_iff by (metis less_imp_le_nat)
      ultimately show False by blast
    qed
    show ?thesis using i0 j1 j2 by simp
  next
    case False
    then have "length t \<le> i" by simp
    then obtain i' where i: "i = length t + i'"
      using le_Suc_ex by blast
    have "i < j" using a by (simp add: token_at_iff)
    then have "length t \<le> j" using i by simp
    then obtain j' where j: "j = length t + j'"
      using le_Suc_ex by blast
    have left: "i' = 0 \<or> is_space (rest ! (i' - 1))"
    proof (cases i')
      case 0 then show ?thesis by simp
    next
      case (Suc m)
      have "is_space ((t @ rest) ! (i - 1))" using a i Suc by (simp add: token_at_iff)
      then show ?thesis using i Suc by (simp add: nth_append)
    qed
    have mid: "\<not> is_space (rest ! k)" if lo: "i' \<le> k" and hi: "k < j'" for k
    proof -
      have "\<not> is_space ((t @ rest) ! (length t + k))"
        using token_at_mid [OF a, of "length t + k"] lo hi unfolding i j by simp
      then show ?thesis by simp
    qed
    have right: "j' = length rest \<or> is_space (rest ! j')"
    proof -
      have "j = length (t @ rest) \<or> is_space ((t @ rest) ! (length t + j'))"
        using a unfolding token_at_iff j by blast
      then show ?thesis unfolding j by simp
    qed
    have "i' < j'" "j' \<le> length rest"
      using a unfolding token_at_iff i j by simp_all
    then have "token_at rest i' j'"
      unfolding token_at_iff using mid left right by blast
    then show ?thesis using i j by blast
  qed
next
  assume "(i = 0 \<and> j = length t) \<or>
     (\<exists>i' j'. i = length t + i' \<and> j = length t + j' \<and> token_at rest i' j')"
  then show "token_at (t @ rest) i j"
  proof
    assume "i = 0 \<and> j = length t"
    then have i: "i = 0" and j: "j = length t" by simp_all
    have mid: "\<not> is_space ((t @ rest) ! k)" if "k < length t" for k
      using ns that by (simp add: nth_append)
    have right: "length t = length (t @ rest) \<or> is_space ((t @ rest) ! length t)"
      using r by (cases rest) (simp_all add: nth_append)
    show ?thesis
      unfolding token_at_iff i j using t mid right by simp
  next
    assume "\<exists>i' j'. i = length t + i' \<and> j = length t + j' \<and> token_at rest i' j'"
    then obtain i' j' where i: "i = length t + i'" and j: "j = length t + j'"
      and a: "token_at rest i' j'" by blast
    have "i' \<noteq> 0"
    proof
      assume z: "i' = 0"
      have "rest \<noteq> []" using a by (auto simp: token_at_iff)
      then have "is_space (rest ! 0)" using r by (simp add: hd_conv_nth)
      then show False using token_at_first [OF a] z by simp
    qed
    then obtain m where m: "i' = Suc m" by (cases i') auto
    have mid: "\<not> is_space ((t @ rest) ! k)" if lo: "length t + i' \<le> k" and hi: "k < length t + j'" for k
    proof -
      have "length t \<le> k" using lo by simp
      then obtain k' where k: "k = length t + k'"
        using le_Suc_ex by blast
      have "\<not> is_space (rest ! k')"
        using token_at_mid [OF a, of k'] lo hi unfolding k by simp
      then show ?thesis unfolding k by simp
    qed
    have left: "is_space ((t @ rest) ! (length t + i' - 1))"
    proof -
      have "is_space (rest ! m)" using a unfolding token_at_iff m by simp
      moreover have "length t + i' - 1 = length t + m" using m by simp
      ultimately show ?thesis by simp
    qed
    have right: "length t + j' = length (t @ rest) \<or> is_space ((t @ rest) ! (length t + j'))"
    proof -
      have "j' = length rest \<or> is_space (rest ! j')"
        using a unfolding token_at_iff by blast
      then show ?thesis by simp
    qed
    have "length t + i' < length t + j'" "length t + j' \<le> length (t @ rest)"
      using a unfolding token_at_iff by simp_all
    then show ?thesis
      unfolding i j token_at_iff [of "t @ rest"] using mid left right by blast
  qed
qed

lemma sorted_wrt_product:
  fixes xs :: "nat list" and ys :: "nat list"
  assumes "sorted_wrt (<) xs" "sorted_wrt (<) ys"
  shows "sorted_wrt (<) (List.product xs ys)"
  using assms
proof (induction xs)
  case Nil
  then show ?case by simp
next
  case (Cons x xs)
  have 1: "sorted_wrt (<) (map (Pair x) ys)"
    using Cons.prems(2) by (simp add: sorted_wrt_map)
  have 2: "sorted_wrt (<) (List.product xs ys)"
    using Cons by simp
  have 3: "\<forall>a \<in> set (map (Pair x) ys). \<forall>b \<in> set (List.product xs ys). a < b"
    using Cons.prems(1) by auto
  show ?case
    using 1 2 3 by (simp add: sorted_wrt_append)
qed

lemma sorted_token_spans: "sorted_wrt (<) (token_spans s)"
  unfolding token_spans_def
  by (intro sorted_wrt_filter sorted_wrt_product sorted_wrt_upt)

lemma set_token_spans: "set (token_spans s) = {(i, j). token_at s i j}"
  by (auto simp: token_spans_def token_at_iff)

lemma substring_shift:
  "substring (pre @ rest) (length pre + i, length pre + j) = substring rest (i, j)"
  by (simp add: substring_def)

lemma substring_token: "substring (ws @ t @ rest) (length ws, length ws + length t) = t"
  by (simp add: substring_def)

lemma Split_spans_ex:
  "\<exists>spans. sorted_wrt (<) spans \<and> set spans = {(i, j). token_at s i j}
     \<and> Split s = map (substring s) spans"
proof (induction s rule: length_induct)
  case (1 s)
  define ws where "ws = takeWhile is_space s"
  define s1 where "s1 = dropWhile is_space s"
  have s: "s = ws @ s1" by (simp add: ws_def s1_def)
  have ws: "\<forall>c \<in> set ws. is_space c"
    unfolding ws_def by (auto dest: set_takeWhileD)
  show ?case
  proof (cases "s1 = []")
    case True
    then have all: "\<forall>c \<in> set s. is_space c" using s ws by simp
    have "Split s = []" using all by (rule Split_all_spaces)
    moreover have "{(i, j). token_at s i j} = {}"
      using no_token_in_spaces [OF all] by simp
    ultimately have "sorted_wrt (<) ([] :: (nat \<times> nat) list) \<and> set [] = {(i, j). token_at s i j}
       \<and> Split s = map (substring s) []" by simp
    then show ?thesis by blast
  next
    case False
    define t where "t = takeWhile (\<lambda>x. \<not> is_space x) s1"
    define rest where "rest = dropWhile (\<lambda>x. \<not> is_space x) s1"
    have s1: "s1 = t @ rest" by (simp add: t_def rest_def)
    have "\<not> is_space (hd s1)"
      using False unfolding s1_def by (rule hd_dropWhile)
    then have t: "t \<noteq> []"
      using False unfolding t_def by (cases s1) auto
    have ns: "\<forall>c \<in> set t. \<not> is_space c"
      unfolding t_def by (auto dest: set_takeWhileD)
    have r: "rest = [] \<or> is_space (hd rest)"
      unfolding rest_def using hd_dropWhile [of "\<lambda>x. \<not> is_space x" s1] by blast
    have "length rest < length s"
      using t by (simp add: s s1)
    then obtain spans' where sp: "sorted_wrt (<) spans'"
      and set': "set spans' = {(i, j). token_at rest i j}"
      and split': "Split rest = map (substring rest) spans'"
      using 1 by blast
    define n where "n = length ws + length t"
    define spans where "spans = (length ws, n) # map (\<lambda>(i, j). (n + i, n + j)) spans'"
    have Split_s: "Split s = t # Split rest"
      using Split_spaces [OF ws, of s1] Split_token [OF t ns r] by (simp add: s s1)
    have sub: "substring s (n + i, n + j) = substring rest (i, j)" for i j
      using substring_shift [of "ws @ t" rest i j] by (simp add: s s1 n_def)
    have sub': "substring s (case p of (i, j) \<Rightarrow> (n + i, n + j)) = substring rest p" for p
      by (cases p) (simp add: sub)
    have hd_t: "substring s (length ws, n) = t"
      using substring_token [of ws t rest] by (simp add: s s1 n_def)
    have "map (substring s) spans = t # map (substring rest) spans'"
      unfolding spans_def by (simp add: hd_t sub' comp_def)
    then have c3: "Split s = map (substring s) spans"
      using Split_s split' by simp
    have tok: "token_at s i j \<longleftrightarrow>
        (i = length ws \<and> j = n) \<or> (\<exists>i' j'. i = n + i' \<and> j = n + j' \<and> token_at rest i' j')" for i j
    proof -
      have "token_at s i j \<longleftrightarrow>
          (\<exists>i1 j1. i = length ws + i1 \<and> j = length ws + j1 \<and> token_at (t @ rest) i1 j1)"
        unfolding s s1 using token_at_spaces [OF ws] by blast
      also have "\<dots> \<longleftrightarrow> (\<exists>i1 j1. i = length ws + i1 \<and> j = length ws + j1 \<and>
          ((i1 = 0 \<and> j1 = length t) \<or>
           (\<exists>i' j'. i1 = length t + i' \<and> j1 = length t + j' \<and> token_at rest i' j')))"
        using token_at_token_prefix [OF t ns r] by simp
      also have "\<dots> \<longleftrightarrow>
        (i = length ws \<and> j = n) \<or> (\<exists>i' j'. i = n + i' \<and> j = n + j' \<and> token_at rest i' j')"
        unfolding n_def by (auto simp: add.assoc)
      finally show ?thesis .
    qed
    have c2: "set spans = {(i, j). token_at s i j}"
    proof -
      have "set spans = insert (length ws, n) ((\<lambda>(i, j). (n + i, n + j)) ` {(i, j). token_at rest i j})"
        by (simp add: spans_def set')
      also have "\<dots> = {(i, j). token_at s i j}"
        using tok by (auto simp: image_iff)
      finally show ?thesis .
    qed
    have mono: "sorted_wrt (<) (map (\<lambda>(i, j). (n + i, n + j)) spans')"
      using sp by (simp add: sorted_wrt_map split_def) (erule sorted_wrt_mono_rel [rotated], auto)
    have "length ws < n" using t by (simp add: n_def)
    then have first: "\<forall>p \<in> set (map (\<lambda>(i, j). (n + i, n + j)) spans'). (length ws, n) < p"
      by auto
    have c1: "sorted_wrt (<) spans"
      unfolding spans_def using mono first by simp
    show ?thesis using c1 c2 c3 by blast
  qed
qed

lemma Split_token_spans: "Split s = map (substring s) (token_spans s)"
proof -
  obtain spans where 1: "sorted_wrt (<) spans" and 2: "set spans = {(i, j). token_at s i j}"
    and 3: "Split s = map (substring s) spans"
    using Split_spans_ex by blast
  have "token_spans s = spans"
    using strict_sorted_equal [OF 1 sorted_token_spans] 2 set_token_spans by simp
  then show ?thesis using 3 by simp
qed

subsection \<open>The loop of Read\<close>

lemma Read_loop_Inl_iff:
  "Read_loop add_entry conf ts = Inl e \<longleftrightarrow>
     (\<exists>k conf'. k < length ts \<and> Read_loop add_entry conf (take k ts) = Inr conf'
        \<and> add_entry conf' (ts ! k) = Inl e)"
proof (induction ts arbitrary: conf)
  case Nil
  then show ?case by simp
next
  case (Cons t ts)
  show ?case
  proof (cases "add_entry conf t")
    case (Inl e')
    have "(\<exists>k conf'. k < length (t # ts) \<and> Read_loop add_entry conf (take k (t # ts)) = Inr conf'
        \<and> add_entry conf' ((t # ts) ! k) = Inl e) \<longleftrightarrow> e' = e"
    proof
      assume "\<exists>k conf'. k < length (t # ts) \<and> Read_loop add_entry conf (take k (t # ts)) = Inr conf'
        \<and> add_entry conf' ((t # ts) ! k) = Inl e"
      then obtain k conf' where k: "k < length (t # ts)"
        and r: "Read_loop add_entry conf (take k (t # ts)) = Inr conf'"
        and a: "add_entry conf' ((t # ts) ! k) = Inl e" by blast
      show "e' = e"
      proof (cases k)
        case 0
        then show ?thesis using r a Inl by simp
      next
        case (Suc m)
        then show ?thesis using r Inl by simp
      qed
    next
      assume "e' = e"
      then have "0 < length (t # ts) \<and> Read_loop add_entry conf (take 0 (t # ts)) = Inr conf
        \<and> add_entry conf ((t # ts) ! 0) = Inl e" using Inl by simp
      then show "\<exists>k conf'. k < length (t # ts) \<and> Read_loop add_entry conf (take k (t # ts)) = Inr conf'
        \<and> add_entry conf' ((t # ts) ! k) = Inl e" by blast
    qed
    then show ?thesis using Inl by auto
  next
    case (Inr c1)
    have "(\<exists>k conf'. k < length (t # ts) \<and> Read_loop add_entry conf (take k (t # ts)) = Inr conf'
        \<and> add_entry conf' ((t # ts) ! k) = Inl e) \<longleftrightarrow>
      (\<exists>k conf'. k < length ts \<and> Read_loop add_entry c1 (take k ts) = Inr conf'
        \<and> add_entry conf' (ts ! k) = Inl e)"
    proof
      assume "\<exists>k conf'. k < length (t # ts) \<and> Read_loop add_entry conf (take k (t # ts)) = Inr conf'
        \<and> add_entry conf' ((t # ts) ! k) = Inl e"
      then obtain k conf' where k: "k < length (t # ts)"
        and r: "Read_loop add_entry conf (take k (t # ts)) = Inr conf'"
        and a: "add_entry conf' ((t # ts) ! k) = Inl e" by blast
      show "\<exists>k conf'. k < length ts \<and> Read_loop add_entry c1 (take k ts) = Inr conf'
        \<and> add_entry conf' (ts ! k) = Inl e"
      proof (cases k)
        case 0
        then show ?thesis using r a Inr by simp
      next
        case (Suc m)
        then have "m < length ts \<and> Read_loop add_entry c1 (take m ts) = Inr conf'
          \<and> add_entry conf' (ts ! m) = Inl e" using k r a Inr by simp
        then show ?thesis by blast
      qed
    next
      assume "\<exists>k conf'. k < length ts \<and> Read_loop add_entry c1 (take k ts) = Inr conf'
        \<and> add_entry conf' (ts ! k) = Inl e"
      then obtain m conf' where "m < length ts" "Read_loop add_entry c1 (take m ts) = Inr conf'"
        "add_entry conf' (ts ! m) = Inl e" by blast
      then have "Suc m < length (t # ts) \<and> Read_loop add_entry conf (take (Suc m) (t # ts)) = Inr conf'
        \<and> add_entry conf' ((t # ts) ! Suc m) = Inl e" using Inr by simp
      then show "\<exists>k conf'. k < length (t # ts) \<and> Read_loop add_entry conf (take k (t # ts)) = Inr conf'
        \<and> add_entry conf' ((t # ts) ! k) = Inl e" by blast
    qed
    then show ?thesis using Inr Cons.IH [of c1] by simp
  qed
qed

lemma Read_loop_AddEntry_Inr_iff:
  "Read_loop (AddEntry reject) conf ts = Inr conf' \<longleftrightarrow>
     (\<forall>t \<in> set ts. reject t = None) \<and> conf' = conf\<lparr>m_entries := m_entries conf @ ts\<rparr>"
  by (induction ts arbitrary: conf) (auto simp: AddEntry_def split: option.splits)

lemma Read_AddEntry_Inr_iff:
  "snd (Read Split IbNodeConf_new (AddEntry reject) this) = Inr conf \<longleftrightarrow>
     (\<forall>t \<in> set (Split (m_str this)). reject t = None) \<and> conf = \<lparr>m_entries = Split (m_str this)\<rparr>"
  by (simp add: Read_def Read_loop_AddEntry_Inr_iff IbNodeConf_new_def)

lemma Read_loop_logged_Inr:
  "Read_loop add_entry conf ts = Inr conf' \<Longrightarrow>
     Read_loop (logged add_entry) (conf, calls) ts = Inr (conf', calls @ ts)"
  by (induction ts arbitrary: conf calls) (auto simp: logged_def split: sum.splits)

lemma token_spans_disjoint:
  "sorted_wrt (\<lambda>(i, j) (i', j'). j < i') (token_spans s)"
proof -
  have "sorted_wrt (\<lambda>p q. snd p < fst q) (token_spans s)"
  proof (rule sorted_wrt_mono_rel [OF _ sorted_token_spans])
    fix p q :: "nat \<times> nat"
    assume p: "p \<in> set (token_spans s)" and q: "q \<in> set (token_spans s)" and lt: "p < q"
    obtain i j where pij: "p = (i, j)" by (cases p)
    obtain i' j' where qij: "q = (i', j')" by (cases q)
    have a: "token_at s i j" using p pij set_token_spans by auto
    have b: "token_at s i' j'" using q qij set_token_spans by auto
    have ii: "i \<le> i'" using lt pij qij by auto
    have "\<not> i' \<le> j"
    proof
      assume le: "i' \<le> j"
      show False
      proof (cases "i = i'")
        case True
        have "j = j'"
        proof (rule ccontr)
          assume "j \<noteq> j'"
          then consider "j < j'" | "j' < j" by linarith
          then show False
          proof cases
            case 1
            have "\<not> is_space (s ! j)" using token_at_mid [OF b, of j] 1 le by simp
            moreover have "j \<noteq> length s" using b 1 by (simp add: token_at_iff)
            ultimately show False using a by (simp add: token_at_iff)
          next
            case 2
            have "i \<le> j'" using b True by (simp add: token_at_iff)
            then have "\<not> is_space (s ! j')" using token_at_mid [OF a, of j'] 2 by simp
            moreover have "j' \<noteq> length s" using a 2 by (simp add: token_at_iff)
            ultimately show False using b by (simp add: token_at_iff)
          qed
        qed
        then show False using lt pij qij True by simp
      next
        case False
        then have lt': "i < i'" using ii by simp
        show False
        proof (cases "i' = j")
          case True
          have "i' < length s" using b by (simp add: token_at_iff)
          then have "is_space (s ! j)" using a True by (simp add: token_at_iff)
          then show False using token_at_first [OF b] True by simp
        next
          case False
          then have "i' - 1 < j" "i \<le> i' - 1" using le lt' by simp_all
          then have "\<not> is_space (s ! (i' - 1))" using token_at_mid [OF a, of "i' - 1"] by simp
          moreover have "i' \<noteq> 0" using lt' by simp
          ultimately show False using b by (simp add: token_at_iff)
        qed
      qed
    qed
    then show "snd p < fst q" using pij qij by simp
  qed
  then show ?thesis by (simp add: split_def)
qed

lemma Split_whitespace_between:
  assumes ws: "ws \<noteq> []" "\<forall>c \<in> set ws. is_space c"
  shows "Split (a @ ws @ b) = Split a @ Split b"
proof (induction a rule: length_induct)
  case (1 a)
  define w0 where "w0 = takeWhile is_space a"
  define a1 where "a1 = dropWhile is_space a"
  have a: "a = w0 @ a1" by (simp add: w0_def a1_def)
  have w0: "\<forall>c \<in> set w0. is_space c"
    unfolding w0_def by (auto dest: set_takeWhileD)
  show ?case
  proof (cases "a1 = []")
    case True
    then have "\<forall>c \<in> set (a @ ws). is_space c" using a w0 ws by auto
    then have "Split ((a @ ws) @ b) = Split b" by (rule Split_spaces)
    moreover have "Split a = []" using True a w0 Split_all_spaces by simp
    ultimately show ?thesis by simp
  next
    case False
    define t where "t = takeWhile (\<lambda>x. \<not> is_space x) a1"
    define rest where "rest = dropWhile (\<lambda>x. \<not> is_space x) a1"
    have a1: "a1 = t @ rest" by (simp add: t_def rest_def)
    have "\<not> is_space (hd a1)"
      using False unfolding a1_def by (rule hd_dropWhile)
    then have t: "t \<noteq> []"
      using False unfolding t_def by (cases a1) auto
    have ns: "\<forall>c \<in> set t. \<not> is_space c"
      unfolding t_def by (auto dest: set_takeWhileD)
    have r: "rest = [] \<or> is_space (hd rest)"
      unfolding rest_def using hd_dropWhile [of "\<lambda>x. \<not> is_space x" a1] by blast
    have r': "rest @ ws @ b = [] \<or> is_space (hd (rest @ ws @ b))"
      using r ws by (cases rest; cases ws) auto
    have "length rest < length a" using t by (simp add: a a1)
    then have IH: "Split (rest @ ws @ b) = Split rest @ Split b" using 1 by blast
    have "Split (a @ ws @ b) = Split (t @ rest @ ws @ b)"
      using Split_spaces [OF w0, of "t @ rest @ ws @ b"] by (simp add: a a1)
    also have "\<dots> = t # Split (rest @ ws @ b)"
      using Split_token [OF t ns r'] by simp
    also have "\<dots> = (t # Split rest) @ Split b" using IH by simp
    also have "t # Split rest = Split a"
      using Split_spaces [OF w0, of "t @ rest"] Split_token [OF t ns r] by (simp add: a a1)
    finally show ?thesis .
  qed
qed

lemma Split_tokens_nonempty:
  "t \<in> set (Split s) \<Longrightarrow> t \<noteq> [] \<and> (\<forall>c \<in> set t. \<not> is_space c)"
proof -
  assume "t \<in> set (Split s)"
  then obtain i j where tok: "token_at s i j" and t: "t = substring s (i, j)"
    using set_token_spans [of s] by (auto simp: Split_token_spans)
  have ne: "t \<noteq> []" using tok by (simp add: t substring_def token_at_iff)
  have "\<not> is_space c" if "c \<in> set t" for c
  proof -
    from that obtain k where k: "k < length t" and c: "c = t ! k"
      by (auto simp: in_set_conv_nth)
    have ij: "i < j" "j \<le> length s" using tok by (simp_all add: token_at_iff)
    have len: "length t = j - i" using ij by (simp add: t substring_def)
    have "c = s ! (i + k)" using k len ij by (simp add: c t substring_def)
    then show ?thesis using token_at_mid [OF tok, of "i + k"] k len by simp
  qed
  then show ?thesis using ne by blast
qed

subsection \<open>The operational model returns what Read returns\<close>

lemma Read_for_result:
  assumes "a < length (confs \<sigma>)" and "i \<le> length tokens"
  shows "\<exists>\<sigma>' r n. Read_for add_entry a tokens i \<sigma> = Some (\<sigma>', r)
     \<and> readers \<sigma>' = readers \<sigma>
     \<and> take a (confs \<sigma>') = take a (confs \<sigma>)
     \<and> i + n \<le> length tokens
     \<and> call_log \<sigma>' = call_log \<sigma> @ map Call_AddEntry (take n (drop i tokens))
     \<and> (r = None \<longrightarrow> i + n = length tokens)
     \<and> (r \<noteq> None \<longrightarrow> 0 < n)
     \<and> (case r of None \<Rightarrow> Inr (confs \<sigma>' ! a) | Some e \<Rightarrow> Inl e)
         = Read_loop add_entry (confs \<sigma> ! a) (drop i tokens)"
  using assms
proof (induction "length tokens - i" arbitrary: i \<sigma>)
  case 0
  then have i: "i = length tokens" by simp
  have "Read_for add_entry a tokens i \<sigma> = Some (\<sigma>, None)"
    by (subst Read_for.simps) (simp add: i)
  then have "Read_for add_entry a tokens i \<sigma> = Some (\<sigma>, None)
     \<and> readers \<sigma> = readers \<sigma>
     \<and> take a (confs \<sigma>) = take a (confs \<sigma>)
     \<and> i + 0 \<le> length tokens
     \<and> call_log \<sigma> = call_log \<sigma> @ map Call_AddEntry (take 0 (drop i tokens))
     \<and> (None = (None :: 'b option) \<longrightarrow> i + 0 = length tokens)
     \<and> ((None :: 'b option) \<noteq> None \<longrightarrow> 0 < (0 :: nat))
     \<and> (case (None :: 'b option) of None \<Rightarrow> Inr (confs \<sigma> ! a) | Some e \<Rightarrow> Inl e)
         = Read_loop add_entry (confs \<sigma> ! a) (drop i tokens)"
    by (simp add: i)
  then show ?case by blast
next
  case (Suc m)
  then have lt: "i < length tokens" by simp
  have dr: "drop i tokens = tokens ! i # drop (Suc i) tokens"
    using lt by (simp add: Cons_nth_drop_Suc)
  show ?case
  proof (cases "add_entry (confs \<sigma> ! a) (tokens ! i)")
    case (Inl e)
    let ?\<sigma>' = "\<sigma>\<lparr>call_log := call_log \<sigma> @ [Call_AddEntry (tokens ! i)]\<rparr>"
    have "Read_for add_entry a tokens i \<sigma> = Some (?\<sigma>', Some e)"
      by (subst Read_for.simps) (simp add: lt Inl)
    then have "Read_for add_entry a tokens i \<sigma> = Some (?\<sigma>', Some e)
       \<and> readers ?\<sigma>' = readers \<sigma>
       \<and> take a (confs ?\<sigma>') = take a (confs \<sigma>)
       \<and> i + 1 \<le> length tokens
       \<and> call_log ?\<sigma>' = call_log \<sigma> @ map Call_AddEntry (take 1 (drop i tokens))
       \<and> (Some e = None \<longrightarrow> i + 1 = length tokens)
       \<and> (Some e \<noteq> None \<longrightarrow> 0 < (1 :: nat))
       \<and> (case Some e of None \<Rightarrow> Inr (confs ?\<sigma>' ! a) | Some e \<Rightarrow> Inl e)
           = Read_loop add_entry (confs \<sigma> ! a) (drop i tokens)"
      using lt by (simp add: dr Inl)
    then show ?thesis by blast
  next
    case (Inr c')
    let ?\<sigma>1 = "\<sigma>\<lparr>confs := (confs \<sigma>)[a := c'],
        call_log := call_log \<sigma> @ [Call_AddEntry (tokens ! i)]\<rparr>"
    have step: "Read_for add_entry a tokens i \<sigma> = Read_for add_entry a tokens (Suc i) ?\<sigma>1"
      by (subst Read_for.simps) (simp add: lt Inr)
    have m: "m = length tokens - Suc i" using Suc.hyps(2) by simp
    have a1: "a < length (confs ?\<sigma>1)" using Suc.prems(1) by simp
    have i1: "Suc i \<le> length tokens" using lt by simp
    from Suc.hyps(1) [OF m a1 i1]
    obtain \<sigma>' r n where
      1: "Read_for add_entry a tokens (Suc i) ?\<sigma>1 = Some (\<sigma>', r)"
      and 2: "readers \<sigma>' = readers ?\<sigma>1"
      and 3: "take a (confs \<sigma>') = take a (confs ?\<sigma>1)"
      and 4: "Suc i + n \<le> length tokens"
      and 5: "call_log \<sigma>' = call_log ?\<sigma>1 @ map Call_AddEntry (take n (drop (Suc i) tokens))"
      and 6: "r = None \<longrightarrow> Suc i + n = length tokens"
      and 8: "r \<noteq> None \<longrightarrow> 0 < n"
      and 7: "(case r of None \<Rightarrow> Inr (confs \<sigma>' ! a) | Some e \<Rightarrow> Inl e)
         = Read_loop add_entry (confs ?\<sigma>1 ! a) (drop (Suc i) tokens)"
      by blast
    have c: "confs ?\<sigma>1 ! a = c'" using Suc.prems(1) by simp
    have "Read_for add_entry a tokens i \<sigma> = Some (\<sigma>', r)
       \<and> readers \<sigma>' = readers \<sigma>
       \<and> take a (confs \<sigma>') = take a (confs \<sigma>)
       \<and> i + Suc n \<le> length tokens
       \<and> call_log \<sigma>' = call_log \<sigma> @ map Call_AddEntry (take (Suc n) (drop i tokens))
       \<and> (r = None \<longrightarrow> i + Suc n = length tokens)
       \<and> (r \<noteq> None \<longrightarrow> 0 < Suc n)
       \<and> (case r of None \<Rightarrow> Inr (confs \<sigma>' ! a) | Some e \<Rightarrow> Inl e)
           = Read_loop add_entry (confs \<sigma> ! a) (drop i tokens)"
      using step 1 2 3 4 5 6 7 c by (simp add: dr Inr)
    then show ?thesis by blast
  qed
qed

lemma Read_exec_result:
  assumes p: "p < length (readers \<sigma>)"
  shows "\<exists>n. n \<le> length (split (m_str (readers \<sigma> ! p)))
     \<and> ((\<exists>c. snd (Read split conf_new add_entry (readers \<sigma> ! p)) = Inr c) \<longrightarrow>
          n = length (split (m_str (readers \<sigma> ! p))))
     \<and> ((\<exists>e. snd (Read split conf_new add_entry (readers \<sigma> ! p)) = Inl e) \<longrightarrow> 0 < n)
     \<and> Read_exec split conf_new add_entry p \<sigma>
         = Some (\<sigma>\<lparr>call_log := call_log \<sigma> @ Call_Split (m_str (readers \<sigma> ! p))
                      # map Call_AddEntry (take n (split (m_str (readers \<sigma> ! p))))\<rparr>,
                 snd (Read split conf_new add_entry (readers \<sigma> ! p)))"
proof -
  let ?s = "m_str (readers \<sigma> ! p)"
  let ?tokens = "split ?s"
  let ?a = "length (confs \<sigma>)"
  let ?\<sigma>2 = "\<sigma>\<lparr>confs := confs \<sigma> @ [conf_new], call_log := call_log \<sigma> @ [Call_Split ?s]\<rparr>"
  have a: "?a < length (confs ?\<sigma>2)" by simp
  from Read_for_result [OF a, of 0 ?tokens add_entry]
  obtain \<sigma>3 r n where
    1: "Read_for add_entry ?a ?tokens 0 ?\<sigma>2 = Some (\<sigma>3, r)"
    and 2: "readers \<sigma>3 = readers ?\<sigma>2"
    and 3: "take ?a (confs \<sigma>3) = take ?a (confs ?\<sigma>2)"
    and 4: "0 + n \<le> length ?tokens"
    and 5: "call_log \<sigma>3 = call_log ?\<sigma>2 @ map Call_AddEntry (take n (drop 0 ?tokens))"
    and 6: "r = None \<longrightarrow> 0 + n = length ?tokens"
    and 8: "r \<noteq> None \<longrightarrow> 0 < n"
    and 7: "(case r of None \<Rightarrow> Inr (confs \<sigma>3 ! ?a) | Some e \<Rightarrow> Inl e)
         = Read_loop add_entry (confs ?\<sigma>2 ! ?a) (drop 0 ?tokens)"
    by blast
  have R: "snd (Read split conf_new add_entry (readers \<sigma> ! p))
      = (case r of None \<Rightarrow> Inr (confs \<sigma>3 ! ?a) | Some e \<Rightarrow> Inl e)"
    using 7 by (simp add: Read_def)
  have mem: "\<sigma>3\<lparr>confs := take ?a (confs \<sigma>3)\<rparr>
      = \<sigma>\<lparr>call_log := call_log \<sigma> @ Call_Split ?s # map Call_AddEntry (take n ?tokens)\<rparr>"
    using 2 3 5 by (intro memory.equality) simp_all
  have ex: "Read_exec split conf_new add_entry p \<sigma>
      = Some (\<sigma>\<lparr>call_log := call_log \<sigma> @ Call_Split ?s # map Call_AddEntry (take n ?tokens)\<rparr>,
              snd (Read split conf_new add_entry (readers \<sigma> ! p)))"
  proof (cases r)
    case None
    then show ?thesis
      using p 1 mem R by (simp add: Read_exec_def Let_def)
  next
    case (Some e)
    then show ?thesis
      using p 1 mem R by (simp add: Read_exec_def Let_def)
  qed
  have n: "n \<le> length ?tokens" using 4 by simp
  have full: "n = length ?tokens" if "\<exists>c. snd (Read split conf_new add_entry (readers \<sigma> ! p)) = Inr c"
  proof (cases r)
    case None
    then show ?thesis using 6 by simp
  next
    case (Some e)
    then show ?thesis using that R by simp
  qed
  have some: "0 < n" if "\<exists>e. snd (Read split conf_new add_entry (readers \<sigma> ! p)) = Inl e"
  proof (cases r)
    case None
    then show ?thesis using that R by simp
  next
    case (Some e)
    then show ?thesis using 8 by simp
  qed
  show ?thesis using n full some ex by blast
qed

subsection \<open>Counting\<close>

lemma count_list_map:
  "count_list (map f xs) d = length (filter (\<lambda>p. f p = d) xs)"
  by (induction xs) simp_all

lemma length_token_spans: "length (token_spans s) = card {(i, j). token_at s i j}"
proof -
  have "distinct (token_spans s)"
    using sorted_token_spans [of s] by (simp add: strict_sorted_iff)
  then have "card (set (token_spans s)) = length (token_spans s)"
    by (rule distinct_card)
  then show ?thesis by (simp add: set_token_spans)
qed

lemmas eval_defs =
  Read_def IbNodeConfStringReader_new_def IbNodeConf_new_def AddEntry_def Split.simps
  is_space_def logged_def calls_of_def

section \<open>Results\<close>

text \<open>
  C1: when \<^verbatim>\<open>Read\<close> returns a configuration for the string \<open>s\<close>, the number of
  its entries is the number of tokens of \<open>s\<close>, a token being a maximal non-empty
  whitespace-free range of \<open>s\<close>; \<open>token_spans\<close> lists every such range once. With
  an insertion operation that refuses nothing, \<^verbatim>\<open>Read\<close> returns such a configuration
  for every string.
\<close>

theorem Read_entry_count:
  "(snd (Read Split IbNodeConf_new (AddEntry reject) (IbNodeConfStringReader_new s)) = Inr conf \<longrightarrow>
      length (m_entries conf) = length (token_spans s))
   \<and> length (token_spans s) = card {(i, j). token_at s i j}
   \<and> (\<exists>conf'. snd (Read Split IbNodeConf_new (AddEntry (\<lambda>d. None :: 'e option))
          (IbNodeConfStringReader_new s)) = Inr conf'
        \<and> length (m_entries conf') = length (token_spans s))"
proof -
  have 1: "length (m_entries conf) = length (token_spans s)"
    if "snd (Read Split IbNodeConf_new (AddEntry reject) (IbNodeConfStringReader_new s)) = Inr conf"
  proof -
    have "m_entries conf = Split s"
      using that by (simp add: Read_AddEntry_Inr_iff IbNodeConfStringReader_new_def)
    then show ?thesis by (simp add: Split_token_spans)
  qed
  have "snd (Read Split IbNodeConf_new (AddEntry (\<lambda>d. None :: 'e option))
      (IbNodeConfStringReader_new s)) = Inr \<lparr>m_entries = Split s\<rparr>"
    by (simp add: Read_AddEntry_Inr_iff IbNodeConfStringReader_new_def)
  then have 2: "\<exists>conf'. snd (Read Split IbNodeConf_new (AddEntry (\<lambda>d. None :: 'e option))
          (IbNodeConfStringReader_new s)) = Inr conf'
        \<and> length (m_entries conf') = length (token_spans s)"
    by (simp add: Split_token_spans)
  show ?thesis using 1 2 length_token_spans by blast
qed

theorem Read_entry_count_witness:
  "snd (Read Split IbNodeConf_new (AddEntry (\<lambda>d. None :: unit option))
         (IbNodeConfStringReader_new ''node1 node2 node3''))
     = Inr \<lparr>m_entries = [''node1'', ''node2'', ''node3'']\<rparr>
   \<and> length (token_spans ''node1 node2 node3'') = 3
   \<and> card {(i, j). token_at ''node1 node2 node3'' i j} = 3"
proof -
  have h: "snd (Read Split IbNodeConf_new (AddEntry (\<lambda>d. None :: unit option))
         (IbNodeConfStringReader_new ''node1 node2 node3''))
     = Inr \<lparr>m_entries = [''node1'', ''node2'', ''node3'']\<rparr>"
    by (simp add: eval_defs)
  have "length (m_entries \<lparr>m_entries = [''node1'', ''node2'', ''node3'']\<rparr>)
        = length (token_spans ''node1 node2 node3'')
      \<and> length (token_spans ''node1 node2 node3'') = card {(i, j). token_at ''node1 node2 node3'' i j}"
    using h Read_entry_count [of "\<lambda>d. None :: unit option" "''node1 node2 node3''"
      "\<lparr>m_entries = [''node1'', ''node2'', ''node3'']\<rparr>"] by blast
  then show ?thesis using h by simp
qed

text \<open>
  C2: when \<^verbatim>\<open>Read\<close> returns a configuration for \<open>s\<close>, its entries are the tokens of
  \<open>s\<close> in the order of their positions, each token range ending before the next one
  begins, and the descriptors handed to the insertion operation are these same strings,
  unchanged and in the same order.
\<close>

theorem Read_entries_in_order:
  assumes "snd (Read Split IbNodeConf_new (AddEntry reject) (IbNodeConfStringReader_new s)) = Inr conf"
  shows "m_entries conf = map (substring s) (token_spans s)
     \<and> sorted_wrt (\<lambda>(i, j) (i', j'). j < i') (token_spans s)
     \<and> calls_of (snd (Read Split (IbNodeConf_new, []) (logged (AddEntry reject))
          (IbNodeConfStringReader_new s))) = m_entries conf"
proof -
  have e: "m_entries conf = Split s"
    using assms by (simp add: Read_AddEntry_Inr_iff IbNodeConfStringReader_new_def)
  have "Read_loop (AddEntry reject) IbNodeConf_new (Split s) = Inr conf"
    using assms by (simp add: Read_def IbNodeConfStringReader_new_def)
  from Read_loop_logged_Inr [OF this, of "[]"]
  have "calls_of (snd (Read Split (IbNodeConf_new, []) (logged (AddEntry reject))
          (IbNodeConfStringReader_new s))) = Split s"
    by (simp add: Read_def IbNodeConfStringReader_new_def calls_of_def)
  then show ?thesis
    using e token_spans_disjoint [of s] by (simp add: Split_token_spans)
qed

theorem Read_entries_in_order_witness:
  "snd (Read Split IbNodeConf_new (AddEntry (\<lambda>d. None :: unit option))
         (IbNodeConfStringReader_new ''  nodeA   nodeB  ''))
     = Inr \<lparr>m_entries = [''nodeA'', ''nodeB'']\<rparr>
   \<and> map (substring ''  nodeA   nodeB  '') (token_spans ''  nodeA   nodeB  '') = [''nodeA'', ''nodeB'']
   \<and> calls_of (snd (Read Split (IbNodeConf_new, []) (logged (AddEntry (\<lambda>d. None :: unit option)))
          (IbNodeConfStringReader_new ''  nodeA   nodeB  ''))) = [''nodeA'', ''nodeB'']"
proof -
  have h: "snd (Read Split IbNodeConf_new (AddEntry (\<lambda>d. None :: unit option))
         (IbNodeConfStringReader_new ''  nodeA   nodeB  ''))
     = Inr \<lparr>m_entries = [''nodeA'', ''nodeB'']\<rparr>"
    by (simp add: eval_defs)
  show ?thesis
    using h Read_entries_in_order [OF h] by simp
qed

text \<open>
  C3: if the insertions for the first \<open>k\<close> tokens succeed and the insertion for token
  \<open>k\<close> fails with \<open>e\<close>, then \<^verbatim>\<open>Read\<close> fails with exactly \<open>e\<close> and returns no
  configuration. This holds for every tokenizer and every insertion operation.
\<close>

theorem Read_propagates_failure:
  assumes "k < length (split (m_str this))"
    and "Read_loop add_entry conf_new (take k (split (m_str this))) = Inr conf"
    and "add_entry conf (split (m_str this) ! k) = Inl e"
  shows "snd (Read split conf_new add_entry this) = Inl e
     \<and> (\<forall>c. snd (Read split conf_new add_entry this) \<noteq> Inr c)"
proof -
  have "Read_loop add_entry conf_new (split (m_str this)) = Inl e"
    unfolding Read_loop_Inl_iff using assms by blast
  then show ?thesis by (simp add: Read_def)
qed

theorem Read_propagates_failure_witness:
  "snd (Read Split IbNodeConf_new (AddEntry (\<lambda>d. if d = ''bad'' then Some (42 :: nat) else None))
         (IbNodeConfStringReader_new ''n1 bad n3'')) = Inl 42"
proof -
  let ?rej = "\<lambda>d. if d = ''bad'' then Some (42 :: nat) else None"
  let ?rd = "IbNodeConfStringReader_new ''n1 bad n3''"
  have s: "Split (m_str ?rd) = [''n1'', ''bad'', ''n3'']"
    by (simp add: eval_defs)
  have 1: "1 < length (Split (m_str ?rd))"
    by (simp add: s)
  have 2: "Read_loop (AddEntry ?rej) IbNodeConf_new (take 1 (Split (m_str ?rd)))
      = Inr \<lparr>m_entries = [''n1'']\<rparr>"
    by (simp add: s) (simp add: eval_defs)
  have 3: "AddEntry ?rej \<lparr>m_entries = [''n1'']\<rparr> (Split (m_str ?rd) ! 1) = Inl 42"
    by (simp add: s) (simp add: eval_defs)
  show ?thesis
    using Read_propagates_failure [of 1 Split ?rd "AddEntry ?rej" IbNodeConf_new
        "\<lparr>m_entries = [''n1'']\<rparr>" 42, OF 1 2 3] by simp
qed

text \<open>
  C4: \<^verbatim>\<open>Read\<close> is idempotent. Two calls in a row on the same reader object both
  return, and return the same result: the one computed from the stored string and a
  fresh configuration. The second call finds the reader objects and the configuration
  objects as the first call found them, so nothing of the first result is reused.
\<close>

theorem Read_idempotent:
  assumes "p < length (readers \<sigma>)"
  shows "\<exists>\<sigma>1 \<sigma>2 r. Read_exec split conf_new add_entry p \<sigma> = Some (\<sigma>1, r)
     \<and> Read_exec split conf_new add_entry p \<sigma>1 = Some (\<sigma>2, r)
     \<and> r = snd (Read split conf_new add_entry (readers \<sigma> ! p))
     \<and> readers \<sigma>2 = readers \<sigma> \<and> confs \<sigma>2 = confs \<sigma>"
proof -
  from Read_exec_result [OF assms, of split conf_new add_entry]
  obtain n where 1: "Read_exec split conf_new add_entry p \<sigma>
      = Some (\<sigma>\<lparr>call_log := call_log \<sigma> @ Call_Split (m_str (readers \<sigma> ! p))
                      # map Call_AddEntry (take n (split (m_str (readers \<sigma> ! p))))\<rparr>,
              snd (Read split conf_new add_entry (readers \<sigma> ! p)))"
    by blast
  let ?\<sigma>1 = "\<sigma>\<lparr>call_log := call_log \<sigma> @ Call_Split (m_str (readers \<sigma> ! p))
                      # map Call_AddEntry (take n (split (m_str (readers \<sigma> ! p))))\<rparr>"
  have p1: "p < length (readers ?\<sigma>1)" using assms by simp
  from Read_exec_result [OF p1, of split conf_new add_entry]
  obtain n' where 2: "Read_exec split conf_new add_entry p ?\<sigma>1
      = Some (?\<sigma>1\<lparr>call_log := call_log ?\<sigma>1 @ Call_Split (m_str (readers ?\<sigma>1 ! p))
                      # map Call_AddEntry (take n' (split (m_str (readers ?\<sigma>1 ! p))))\<rparr>,
              snd (Read split conf_new add_entry (readers ?\<sigma>1 ! p)))"
    by blast
  let ?\<sigma>2 = "?\<sigma>1\<lparr>call_log := call_log ?\<sigma>1 @ Call_Split (m_str (readers ?\<sigma>1 ! p))
                      # map Call_AddEntry (take n' (split (m_str (readers ?\<sigma>1 ! p))))\<rparr>"
  have "Read_exec split conf_new add_entry p \<sigma>
        = Some (?\<sigma>1, snd (Read split conf_new add_entry (readers \<sigma> ! p)))
     \<and> Read_exec split conf_new add_entry p ?\<sigma>1
        = Some (?\<sigma>2, snd (Read split conf_new add_entry (readers \<sigma> ! p)))
     \<and> snd (Read split conf_new add_entry (readers \<sigma> ! p))
        = snd (Read split conf_new add_entry (readers \<sigma> ! p))
     \<and> readers ?\<sigma>2 = readers \<sigma> \<and> confs ?\<sigma>2 = confs \<sigma>"
    using 1 2 by simp
  then show ?thesis by blast
qed

theorem Read_idempotent_witness:
  "\<exists>\<sigma>1 \<sigma>2. Read_exec Split IbNodeConf_new (AddEntry (\<lambda>d. None :: unit option)) 0
        \<lparr>readers = [\<lparr>m_str = ''n1 n2''\<rparr>], confs = [], call_log = []\<rparr>
      = Some (\<sigma>1, Inr \<lparr>m_entries = [''n1'', ''n2'']\<rparr>)
     \<and> Read_exec Split IbNodeConf_new (AddEntry (\<lambda>d. None :: unit option)) 0 \<sigma>1
      = Some (\<sigma>2, Inr \<lparr>m_entries = [''n1'', ''n2'']\<rparr>)
     \<and> confs \<sigma>2 = []"
proof -
  let ?\<sigma> = "\<lparr>readers = [\<lparr>m_str = ''n1 n2''\<rparr>], confs = [] :: IbNodeConf list, call_log = []\<rparr>"
  have h: "0 < length (readers ?\<sigma>)" by simp
  have r: "snd (Read Split IbNodeConf_new (AddEntry (\<lambda>d. None :: unit option)) (readers ?\<sigma> ! 0))
      = Inr \<lparr>m_entries = [''n1'', ''n2'']\<rparr>"
    by (simp add: eval_defs)
  show ?thesis
    using Read_idempotent [OF h, of Split IbNodeConf_new "AddEntry (\<lambda>d. None :: unit option)"]
    unfolding r by simp blast
qed

text \<open>
  C5: the constructor stores every string as it is, the empty one included, without any
  check; and for a string of whitespace characters only, or the empty string,
  \<^verbatim>\<open>Read\<close> returns a configuration without entries, whatever the insertion
  operation would refuse.
\<close>

theorem Read_empty_or_whitespace:
  "m_str (IbNodeConfStringReader_new s) = s
   \<and> IbNodeConfStringReader_new [] = \<lparr>m_str = []\<rparr>
   \<and> ((\<forall>c \<in> set s. is_space c) \<longrightarrow>
        snd (Read Split IbNodeConf_new (AddEntry reject) (IbNodeConfStringReader_new s))
          = Inr \<lparr>m_entries = []\<rparr>)
   \<and> snd (Read Split IbNodeConf_new (AddEntry reject) (IbNodeConfStringReader_new []))
        = Inr \<lparr>m_entries = []\<rparr>"
  by (simp add: Read_def IbNodeConfStringReader_new_def IbNodeConf_new_def Split_all_spaces Split_Nil)

theorem Read_empty_or_whitespace_witness:
  "m_str (IbNodeConfStringReader_new ''node1 node2'') = ''node1 node2''
   \<and> snd (Read Split IbNodeConf_new (AddEntry (\<lambda>d. Some ()))
      (IbNodeConfStringReader_new [CHR '' '', CHR 0x09, CHR 0x0A])) = Inr \<lparr>m_entries = []\<rparr>"
proof -
  have h: "\<forall>c \<in> set [CHR '' '', CHR 0x09, CHR 0x0A]. is_space c"
    by (simp add: is_space_def)
  show ?thesis
    using h Read_empty_or_whitespace [of "[CHR '' '', CHR 0x09, CHR 0x0A]" "\<lambda>d. Some ()"]
      Read_empty_or_whitespace [of "''node1 node2''" "\<lambda>d. Some ()"]
    by blast
qed

text \<open>
  C6: space and tab are whitespace; no token of \<open>Split\<close> is empty or holds a
  whitespace character; whitespace in front of or behind the text changes nothing; a
  non-empty run of whitespace between two texts separates their tokens however long it
  is; a non-empty text without whitespace is its own single token.
\<close>

theorem Split_whitespace_runs:
  "is_space (CHR '' '') \<and> is_space (CHR 0x09)
   \<and> (\<forall>t \<in> set (Split s). t \<noteq> [] \<and> (\<forall>c \<in> set t. \<not> is_space c))
   \<and> ((\<forall>c \<in> set ws. is_space c) \<longrightarrow> Split (ws @ s) = Split s \<and> Split (s @ ws) = Split s)
   \<and> (ws \<noteq> [] \<and> (\<forall>c \<in> set ws. is_space c) \<longrightarrow> Split (a @ ws @ b) = Split a @ Split b)
   \<and> (t \<noteq> [] \<and> (\<forall>c \<in> set t. \<not> is_space c) \<longrightarrow> Split t = [t])"
proof -
  have 1: "is_space (CHR '' '') \<and> is_space (CHR 0x09)"
    by (simp add: is_space_def)
  have 2: "\<forall>t \<in> set (Split s). t \<noteq> [] \<and> (\<forall>c \<in> set t. \<not> is_space c)"
    using Split_tokens_nonempty by blast
  have 3: "Split (ws @ s) = Split s \<and> Split (s @ ws) = Split s" if w: "\<forall>c \<in> set ws. is_space c"
  proof (cases "ws = []")
    case True
    then show ?thesis by simp
  next
    case False
    have "Split (s @ ws @ []) = Split s @ Split []"
      using False w by (rule Split_whitespace_between)
    then show ?thesis using Split_spaces [OF w] by (simp add: Split_Nil)
  qed
  have 4: "Split (a @ ws @ b) = Split a @ Split b" if "ws \<noteq> [] \<and> (\<forall>c \<in> set ws. is_space c)"
    using that Split_whitespace_between by blast
  have 5: "Split t = [t]" if "t \<noteq> [] \<and> (\<forall>c \<in> set t. \<not> is_space c)"
    using that Split_token [of t "[]"] by (simp add: Split_Nil)
  show ?thesis using 1 2 3 4 5 by blast
qed

theorem Split_whitespace_runs_witness:
  "Split ([CHR '' '', CHR 0x09] @ ''a  b'') = [''a'', ''b'']
   \<and> Split (''a  b'' @ [CHR '' '', CHR 0x09]) = [''a'', ''b'']
   \<and> Split (''x'' @ [CHR '' '', CHR 0x09] @ ''y z'') = [''x''] @ [''y'', ''z'']
   \<and> Split ''tok'' = [''tok'']
   \<and> [] \<notin> set (Split ''a  b'')"
proof -
  have w: "[CHR '' '', CHR 0x09] \<noteq> [] \<and> (\<forall>c \<in> set [CHR '' '', CHR 0x09]. is_space c)"
    by (simp add: is_space_def)
  have t: "''tok'' \<noteq> [] \<and> (\<forall>c \<in> set ''tok''. \<not> is_space c)"
    by (simp add: is_space_def)
  have s: "Split ''a  b'' = [''a'', ''b'']" "Split ''x'' = [''x'']" "Split ''y z'' = [''y'', ''z'']"
    by (simp_all add: Split.simps is_space_def)
  show ?thesis
    using Split_whitespace_runs [of "''a  b''" "[CHR '' '', CHR 0x09]" "''x''" "''y z''" "''tok''"] w t
    unfolding s by blast
qed

text \<open>
  C7: a source made of the same token twice, separated by whitespace, gives two equal
  entries. In general the entries are the tokens of the source in source order, one
  entry for each token position, so every descriptor occurs among the entries as often
  as it stands as a token in the source.
\<close>

theorem Read_keeps_duplicates:
  "(t \<noteq> [] \<and> (\<forall>c \<in> set t. \<not> is_space c) \<and> ws \<noteq> [] \<and> (\<forall>c \<in> set ws. is_space c)
      \<and> reject t = None \<longrightarrow>
      snd (Read Split IbNodeConf_new (AddEntry reject) (IbNodeConfStringReader_new (t @ ws @ t)))
        = Inr \<lparr>m_entries = [t, t]\<rparr>)
   \<and> (snd (Read Split IbNodeConf_new (AddEntry reject) (IbNodeConfStringReader_new s)) = Inr conf \<longrightarrow>
        m_entries conf = map (substring s) (token_spans s)
        \<and> length (m_entries conf) = length (token_spans s)
        \<and> (\<forall>d. count_list (m_entries conf) d
             = length (filter (\<lambda>p. substring s p = d) (token_spans s))))"
proof -
  have 1: "snd (Read Split IbNodeConf_new (AddEntry reject) (IbNodeConfStringReader_new (t @ ws @ t)))
        = Inr \<lparr>m_entries = [t, t]\<rparr>"
    if h: "t \<noteq> [] \<and> (\<forall>c \<in> set t. \<not> is_space c) \<and> ws \<noteq> [] \<and> (\<forall>c \<in> set ws. is_space c)
      \<and> reject t = None"
  proof -
    have "Split t = [t]" using h Split_token [of t "[]"] by (simp add: Split_Nil)
    moreover have "Split (t @ ws @ t) = Split t @ Split t"
      using h Split_whitespace_between by blast
    ultimately have "Split (t @ ws @ t) = [t, t]" by simp
    then show ?thesis
      using h by (simp add: Read_AddEntry_Inr_iff IbNodeConfStringReader_new_def)
  qed
  have 2: "m_entries conf = map (substring s) (token_spans s)
        \<and> length (m_entries conf) = length (token_spans s)
        \<and> (\<forall>d. count_list (m_entries conf) d
             = length (filter (\<lambda>p. substring s p = d) (token_spans s)))"
    if h: "snd (Read Split IbNodeConf_new (AddEntry reject) (IbNodeConfStringReader_new s)) = Inr conf"
  proof -
    have "m_entries conf = map (substring s) (token_spans s)"
      using h by (simp add: Read_AddEntry_Inr_iff IbNodeConfStringReader_new_def Split_token_spans)
    then show ?thesis by (simp add: count_list_map)
  qed
  show ?thesis using 1 2 by blast
qed

theorem Read_keeps_duplicates_witness:
  "snd (Read Split IbNodeConf_new (AddEntry (\<lambda>d. None :: unit option))
      (IbNodeConfStringReader_new ''nodeA nodeA'')) = Inr \<lparr>m_entries = [''nodeA'', ''nodeA'']\<rparr>
   \<and> map (substring ''x x y'') (token_spans ''x x y'') = [''x'', ''x'', ''y'']
   \<and> length (filter (\<lambda>p. substring ''x x y'' p = ''x'') (token_spans ''x x y'')) = 2"
proof -
  let ?rej = "\<lambda>d. None :: unit option"
  have a: "''nodeA'' \<noteq> [] \<and> (\<forall>c \<in> set ''nodeA''. \<not> is_space c) \<and> '' '' \<noteq> []
      \<and> (\<forall>c \<in> set '' ''. is_space c) \<and> ?rej ''nodeA'' = None"
    by (simp add: is_space_def)
  have b: "snd (Read Split IbNodeConf_new (AddEntry ?rej) (IbNodeConfStringReader_new ''nodeA nodeA''))
      = Inr \<lparr>m_entries = [''nodeA'', ''nodeA'']\<rparr>"
    using a Read_keeps_duplicates [of "''nodeA''" "'' ''" ?rej] by simp
  have c: "snd (Read Split IbNodeConf_new (AddEntry ?rej) (IbNodeConfStringReader_new ''x x y''))
      = Inr \<lparr>m_entries = [''x'', ''x'', ''y'']\<rparr>"
    by (simp add: eval_defs)
  have "m_entries \<lparr>m_entries = [''x'', ''x'', ''y'']\<rparr> = map (substring ''x x y'') (token_spans ''x x y'')
      \<and> count_list (m_entries \<lparr>m_entries = [''x'', ''x'', ''y'']\<rparr>) ''x''
        = length (filter (\<lambda>p. substring ''x x y'' p = ''x'') (token_spans ''x x y''))"
    using c Read_keeps_duplicates [of _ _ ?rej "''x x y''" "\<lparr>m_entries = [''x'', ''x'', ''y'']\<rparr>"]
    by blast
  then show ?thesis using b by simp
qed

text \<open>
  C8: a call of \<^verbatim>\<open>Read\<close> on a reader object returns the result of \<open>Read\<close> and
  leaves all reader objects as they were, the stored string of its own reader included.
  The configuration objects in memory after the call are those from before the call:
  the configuration built by the call exists only as the value handed to the caller.
\<close>

theorem Read_leaves_reader:
  assumes "p < length (readers \<sigma>)"
  shows "\<exists>\<sigma>'. Read_exec split conf_new add_entry p \<sigma>
        = Some (\<sigma>', snd (Read split conf_new add_entry (readers \<sigma> ! p)))
     \<and> readers \<sigma>' = readers \<sigma>
     \<and> m_str (readers \<sigma>' ! p) = m_str (readers \<sigma> ! p)
     \<and> confs \<sigma>' = confs \<sigma>"
proof -
  from Read_exec_result [OF assms, of split conf_new add_entry]
  obtain n where 1: "Read_exec split conf_new add_entry p \<sigma>
      = Some (\<sigma>\<lparr>call_log := call_log \<sigma> @ Call_Split (m_str (readers \<sigma> ! p))
                      # map Call_AddEntry (take n (split (m_str (readers \<sigma> ! p))))\<rparr>,
              snd (Read split conf_new add_entry (readers \<sigma> ! p)))"
    by blast
  then show ?thesis by simp
qed

theorem Read_leaves_reader_witness:
  "\<exists>\<sigma>'. Read_exec Split IbNodeConf_new (AddEntry (\<lambda>d. None :: unit option)) 1
        \<lparr>readers = [\<lparr>m_str = ''zz''\<rparr>, \<lparr>m_str = ''n1  n3''\<rparr>],
         confs = [\<lparr>m_entries = [''old'']\<rparr>], call_log = []\<rparr>
      = Some (\<sigma>', Inr \<lparr>m_entries = [''n1'', ''n3'']\<rparr>)
     \<and> readers \<sigma>' = [\<lparr>m_str = ''zz''\<rparr>, \<lparr>m_str = ''n1  n3''\<rparr>]
     \<and> confs \<sigma>' = [\<lparr>m_entries = [''old'']\<rparr>]"
proof -
  let ?\<sigma> = "\<lparr>readers = [\<lparr>m_str = ''zz''\<rparr>, \<lparr>m_str = ''n1  n3''\<rparr>],
         confs = [\<lparr>m_entries = [''old'']\<rparr>], call_log = []\<rparr>"
  have h: "1 < length (readers ?\<sigma>)" by simp
  have r: "snd (Read Split IbNodeConf_new (AddEntry (\<lambda>d. None :: unit option)) (readers ?\<sigma> ! 1))
      = Inr \<lparr>m_entries = [''n1'', ''n3'']\<rparr>"
    by (simp add: eval_defs)
  show ?thesis
    using Read_leaves_reader [OF h, of Split IbNodeConf_new "AddEntry (\<lambda>d. None :: unit option)"]
    unfolding r by simp blast
qed

text \<open>
  C9: a call of \<^verbatim>\<open>Read\<close> on a reader object returns (the loop ends). Its calls of the
  collaborators are, in this order: one call of \<^verbatim>\<open>Split\<close> on the stored string, then
  one call of \<^verbatim>\<open>AddEntry\<close> for each of the first \<open>n\<close> tokens in token order, where
  \<open>n\<close> is at most the number of tokens; \<open>n\<close> is the number of tokens when a
  configuration is returned, and at least one when an insertion failed.
\<close>

theorem Read_calls_once_per_token:
  assumes "p < length (readers \<sigma>)"
  shows "\<exists>\<sigma>' n. Read_exec split conf_new add_entry p \<sigma>
        = Some (\<sigma>', snd (Read split conf_new add_entry (readers \<sigma> ! p)))
     \<and> n \<le> length (split (m_str (readers \<sigma> ! p)))
     \<and> call_log \<sigma>' = call_log \<sigma> @ Call_Split (m_str (readers \<sigma> ! p))
          # map Call_AddEntry (take n (split (m_str (readers \<sigma> ! p))))
     \<and> ((\<exists>c. snd (Read split conf_new add_entry (readers \<sigma> ! p)) = Inr c) \<longrightarrow>
          n = length (split (m_str (readers \<sigma> ! p))))
     \<and> ((\<exists>e. snd (Read split conf_new add_entry (readers \<sigma> ! p)) = Inl e) \<longrightarrow> 0 < n)"
proof -
  from Read_exec_result [OF assms, of split conf_new add_entry]
  obtain n where n: "n \<le> length (split (m_str (readers \<sigma> ! p)))"
    and full: "(\<exists>c. snd (Read split conf_new add_entry (readers \<sigma> ! p)) = Inr c) \<longrightarrow>
          n = length (split (m_str (readers \<sigma> ! p)))"
    and some: "(\<exists>e. snd (Read split conf_new add_entry (readers \<sigma> ! p)) = Inl e) \<longrightarrow> 0 < n"
    and 1: "Read_exec split conf_new add_entry p \<sigma>
      = Some (\<sigma>\<lparr>call_log := call_log \<sigma> @ Call_Split (m_str (readers \<sigma> ! p))
                      # map Call_AddEntry (take n (split (m_str (readers \<sigma> ! p))))\<rparr>,
              snd (Read split conf_new add_entry (readers \<sigma> ! p)))"
    by blast
  let ?\<sigma>' = "\<sigma>\<lparr>call_log := call_log \<sigma> @ Call_Split (m_str (readers \<sigma> ! p))
                      # map Call_AddEntry (take n (split (m_str (readers \<sigma> ! p))))\<rparr>"
  have "call_log ?\<sigma>' = call_log \<sigma> @ Call_Split (m_str (readers \<sigma> ! p))
          # map Call_AddEntry (take n (split (m_str (readers \<sigma> ! p))))"
    by simp
  then show ?thesis using 1 n full some by blast
qed

theorem Read_calls_once_per_token_witness:
  "\<exists>\<sigma>'. Read_exec Split IbNodeConf_new (AddEntry (\<lambda>d. None :: unit option)) 0
        \<lparr>readers = [\<lparr>m_str = ''n1 n2''\<rparr>], confs = [], call_log = []\<rparr>
      = Some (\<sigma>', Inr \<lparr>m_entries = [''n1'', ''n2'']\<rparr>)
     \<and> call_log \<sigma>' = [Call_Split ''n1 n2'', Call_AddEntry ''n1'', Call_AddEntry ''n2'']"
proof -
  let ?\<sigma> = "\<lparr>readers = [\<lparr>m_str = ''n1 n2''\<rparr>], confs = [] :: IbNodeConf list, call_log = []\<rparr>"
  have h: "0 < length (readers ?\<sigma>)" by simp
  have s: "Split (m_str (readers ?\<sigma> ! 0)) = [''n1'', ''n2'']"
    by (simp add: eval_defs)
  have r: "snd (Read Split IbNodeConf_new (AddEntry (\<lambda>d. None :: unit option)) (readers ?\<sigma> ! 0))
      = Inr \<lparr>m_entries = [''n1'', ''n2'']\<rparr>"
    by (simp add: eval_defs)
  from Read_calls_once_per_token [OF h, of Split IbNodeConf_new "AddEntry (\<lambda>d. None :: unit option)"]
  obtain \<sigma>' n where 1: "Read_exec Split IbNodeConf_new (AddEntry (\<lambda>d. None :: unit option)) 0 ?\<sigma>
        = Some (\<sigma>', Inr \<lparr>m_entries = [''n1'', ''n2'']\<rparr>)"
    and 2: "call_log \<sigma>' = call_log ?\<sigma> @ Call_Split (m_str (readers ?\<sigma> ! 0))
          # map Call_AddEntry (take n [''n1'', ''n2''])"
    and 3: "n = length [''n1'', ''n2'']"
    unfolding r s by blast
  have "call_log \<sigma>' = [Call_Split ''n1 n2'', Call_AddEntry ''n1'', Call_AddEntry ''n2'']"
    using 2 3 by simp
  then show ?thesis using 1 by blast
qed

text \<open>
  C10: for a string of whitespace characters only, the empty string included,
  \<^verbatim>\<open>Read\<close> returns the fresh configuration and the insertion operation is never
  called, whatever that operation does.
\<close>

theorem Read_whitespace_never_fails:
  assumes "\<forall>c \<in> set s. is_space c"
  shows "snd (Read Split conf_new add_entry (IbNodeConfStringReader_new s)) = Inr conf_new
     \<and> calls_of (snd (Read Split (conf_new, []) (logged add_entry) (IbNodeConfStringReader_new s))) = []"
  using assms
  by (simp add: Read_def IbNodeConfStringReader_new_def Split_all_spaces calls_of_def)

theorem Read_whitespace_never_fails_witness:
  "snd (Read Split IbNodeConf_new (\<lambda>conf it. Inl ()) (IbNodeConfStringReader_new ''   ''))
     = Inr IbNodeConf_new"
proof -
  have h: "\<forall>c \<in> set ''   ''. is_space c"
    by (simp add: is_space_def)
  show ?thesis
    using Read_whitespace_never_fails [OF h, of IbNodeConf_new "\<lambda>conf it. Inl ()"] by simp
qed

end
